theory Spec2Isabelle
  imports Complex_Main "HOL-Library.Sublist"
begin

section \<open>Data model\<close>

text \<open>
  The program is \<^verbatim>\<open>whisper_online_ts.py\<close>. A timestamped word is the Python tuple
  \<^verbatim>\<open>(start, end, text)\<close>. Times are Python floats; they are modelled as reals, so
  rounding is not part of the model. A Python \<^verbatim>\<open>str\<close> is modelled as a list of
  characters, one \<open>char\<close> per code point.
\<close>

type_synonym tsword = "real \<times> real \<times> string"

definition w_start :: "tsword \<Rightarrow> real" where
  "w_start w = fst w"

definition w_end :: "tsword \<Rightarrow> real" where
  "w_end w = fst (snd w)"

definition w_text :: "tsword \<Rightarrow> string" where
  "w_text w = snd (snd w)"

text \<open>\<^verbatim>\<open>sep.join(xs)\<close> of Python.\<close>

fun join :: "string \<Rightarrow> string list \<Rightarrow> string" where
  "join sep [] = []"
| "join sep [x] = x"
| "join sep (x # y # ys) = x @ sep @ join sep (y # ys)"

section \<open>HypothesisBuffer\<close>

text \<open>
  The fields of \<^verbatim>\<open>class HypothesisBuffer\<close>, with the spelling of the source.
  \<^verbatim>\<open>last_commited_word\<close> starts as \<^verbatim>\<open>None\<close>.
\<close>

record hyp_buffer =
  commited_in_buffer :: "tsword list"
  buffer :: "tsword list"
  new :: "tsword list"
  last_commited_time :: real
  last_commited_word :: "string option"

definition hyp_init :: hyp_buffer where
  "hyp_init = \<lparr> commited_in_buffer = [], buffer = [], new = [],
                 last_commited_time = 0, last_commited_word = None \<rparr>"

subsection \<open>insert\<close>

text \<open>
  \<^verbatim>\<open>c = " ".join([self.commited_in_buffer[-j][2] for j in range(1, i + 1)][::-1])\<close>
  and \<^verbatim>\<open>tail = " ".join(self.new[j - 1][2] for j in range(1, i + 1))\<close>.
  The loop only asks for \<open>i\<close> up to the lengths of both lists, so no index is out of range.
\<close>

definition ngram_c :: "tsword list \<Rightarrow> nat \<Rightarrow> string" where
  "ngram_c cib i = join '' '' (rev (map (\<lambda>j. w_text (cib ! (length cib - j))) [1 ..< i + 1]))"

definition ngram_tail :: "tsword list \<Rightarrow> nat \<Rightarrow> string" where
  "ngram_tail nw i = join '' '' (map (\<lambda>j. w_text (nw ! (j - 1))) [1 ..< i + 1])"

text \<open>
  \<^verbatim>\<open>for i in range(1, min(min(cn, nn), 5) + 1)\<close>: the first \<open>i\<close> with \<open>c == tail\<close>
  pops \<open>i\<close> words from the front of \<open>new\<close> and breaks; \<open>m\<close> is the last value of \<open>i\<close>.
\<close>

function ngram_loop :: "tsword list \<Rightarrow> tsword list \<Rightarrow> nat \<Rightarrow> nat \<Rightarrow> tsword list" where
  "ngram_loop cib nw i m =
     (if m < i then nw
      else if ngram_c cib i = ngram_tail nw i then drop i nw
      else ngram_loop cib nw (i + 1) m)"
  by pat_completeness auto
termination
  by (relation "measure (\<lambda>(cib, nw, i, m). m + 1 - i)") auto

declare ngram_loop.simps [simp del]

text \<open>
  The first two statements of \<^verbatim>\<open>insert\<close>: shift every word by \<open>offset\<close>, keep the
  words that start after \<^verbatim>\<open>self.last_commited_time - 0.1\<close>.
\<close>

definition kept_words :: "hyp_buffer \<Rightarrow> tsword list \<Rightarrow> real \<Rightarrow> tsword list" where
  "kept_words hb nw offset =
     (let shifted = map (\<lambda>(a, b, t). (a + offset, b + offset, t)) nw
      in filter (\<lambda>(a, b, t). a > last_commited_time hb - 1 / 10) shifted)"

definition insert_words :: "hyp_buffer \<Rightarrow> tsword list \<Rightarrow> real \<Rightarrow> hyp_buffer" where
  "insert_words hb nw offset =
     (let kept = kept_words hb nw offset
      in if length kept \<ge> 1 then
           (case hd kept of (a, b, t) \<Rightarrow>
              if \<bar>a - last_commited_time hb\<bar> < 1 then
                if commited_in_buffer hb \<noteq> [] then
                  (let cn = length (commited_in_buffer hb);
                       nn = length kept
                   in hb\<lparr>new := ngram_loop (commited_in_buffer hb) kept 1 (min (min cn nn) 5)\<rparr>)
                else hb\<lparr>new := kept\<rparr>
              else hb\<lparr>new := kept\<rparr>)
         else hb\<lparr>new := kept\<rparr>)"

subsection \<open>flush\<close>

text \<open>
  The \<^verbatim>\<open>while self.new\<close> loop of \<^verbatim>\<open>flush\<close>; the second argument is the local
  list \<^verbatim>\<open>commit\<close>.
\<close>

function flush_loop :: "hyp_buffer \<Rightarrow> tsword list \<Rightarrow> hyp_buffer \<times> tsword list" where
  "flush_loop hb commit =
     (case new hb of
        [] \<Rightarrow> (hb, commit)
      | (na, nb, nt) # new_rest \<Rightarrow>
          (case buffer hb of
             [] \<Rightarrow> (hb, commit)
           | bw # buffer_rest \<Rightarrow>
               if nt = w_text bw
               then flush_loop
                      (hb\<lparr>last_commited_word := Some nt, last_commited_time := nb,
                          buffer := buffer_rest, new := new_rest\<rparr>)
                      (commit @ [(na, nb, nt)])
               else (hb, commit)))"
  by pat_completeness auto
termination
  by (relation "measure (\<lambda>(hb, commit). length (new hb))") auto

declare flush_loop.simps [simp del]

definition flush :: "hyp_buffer \<Rightarrow> hyp_buffer \<times> tsword list" where
  "flush hb =
     (case flush_loop hb [] of (hb1, commit) \<Rightarrow>
        (hb1\<lparr>buffer := new hb1, new := [],
             commited_in_buffer := commited_in_buffer hb1 @ commit\<rparr>, commit))"

subsection \<open>pop_commited and complete\<close>

fun pop_commited_list :: "tsword list \<Rightarrow> real \<Rightarrow> tsword list" where
  "pop_commited_list [] time = []"
| "pop_commited_list (w # ws) time =
     (if w_end w \<le> time then pop_commited_list ws time else w # ws)"

definition pop_commited :: "hyp_buffer \<Rightarrow> real \<Rightarrow> hyp_buffer" where
  "pop_commited hb time =
     hb\<lparr>commited_in_buffer := pop_commited_list (commited_in_buffer hb) time\<rparr>"

definition complete :: "hyp_buffer \<Rightarrow> tsword list" where
  "complete hb = buffer hb"

section \<open>Transcriber and tokenizer\<close>

text \<open>
  The transcriber and the sentence tokenizer are objects handed to the processor; they are
  parameters of the model. A segment of the transcriber is read only through \<^verbatim>\<open>end\<close>
  and \<^verbatim>\<open>words\<close>, each word through \<^verbatim>\<open>start\<close>, \<^verbatim>\<open>end\<close> and \<^verbatim>\<open>word\<close>.
  An exception raised by either of them is a value \<open>Inl\<close>.
\<close>

datatype error = TranscriberError | SegmenterError

record segment =
  seg_end :: real
  seg_words :: "tsword list"

type_synonym transcriber = "real list \<Rightarrow> string \<Rightarrow> error + segment list"

type_synonym tokenizer = "string \<Rightarrow> error + string list"

definition ts_words :: "segment list \<Rightarrow> tsword list" where
  "ts_words segments = concat (map seg_words segments)"

definition segments_end_ts :: "segment list \<Rightarrow> real list" where
  "segments_end_ts res = map seg_end res"

section \<open>Python primitives\<close>

text \<open>
  \<^verbatim>\<open>str.strip()\<close> removes leading and trailing whitespace; these are the whitespace
  code points below 256. \<^verbatim>\<open>str.startswith\<close> is \<^const>\<open>prefix\<close>, and
  \<^verbatim>\<open>sent[len(w):]\<close> is \<^const>\<open>drop\<close>.
\<close>

definition py_isspace :: "char \<Rightarrow> bool" where
  "py_isspace c \<longleftrightarrow>
     c \<in> set [CHR 0x09, CHR 0x0A, CHR 0x0B, CHR 0x0C, CHR 0x0D, CHR 0x1C, CHR 0x1D,
               CHR 0x1E, CHR 0x1F, CHR 0x20, CHR 0x85, CHR 0xA0]"

definition strip :: "string \<Rightarrow> string" where
  "strip s = rev (dropWhile py_isspace (rev (dropWhile py_isspace s)))"

text \<open>\<^verbatim>\<open>int(x)\<close> on a float truncates towards zero.\<close>

definition py_int :: "real \<Rightarrow> int" where
  "py_int x = (if 0 \<le> x then \<lfloor>x\<rfloor> else \<lceil>x\<rceil>)"

text \<open>\<^verbatim>\<open>xs[n:]\<close>: a negative \<open>n\<close> counts from the end, clipped at the front.\<close>

definition py_slice_from :: "'a list \<Rightarrow> int \<Rightarrow> 'a list" where
  "py_slice_from xs n =
     (if 0 \<le> n then drop (nat n) xs else drop (nat (int (length xs) + n)) xs)"

section \<open>OnlineASRProcessor\<close>

record processor =
  audio_buffer :: "real list"
  buffer_time_offset :: real
  transcript_buffer :: hyp_buffer
  commited :: "tsword list"
  last_chunked_at :: real
  silence_iters :: int

definition SAMPLING_RATE :: nat where
  "SAMPLING_RATE = 16000"

definition init :: processor where
  "init = \<lparr> audio_buffer = [], buffer_time_offset = 0, transcript_buffer = hyp_init,
            commited = [], last_chunked_at = 0, silence_iters = 0 \<rparr>"


subsection \<open>prompt\<close>

text \<open>
  \<^verbatim>\<open>while k > 0 and self.commited[k - 1][1] > self.last_chunked_at: k -= 1\<close>
\<close>

function prompt_k_loop :: "tsword list \<Rightarrow> real \<Rightarrow> nat \<Rightarrow> nat" where
  "prompt_k_loop cm lca k =
     (if k > 0 \<and> w_end (cm ! (k - 1)) > lca then prompt_k_loop cm lca (k - 1) else k)"
  by pat_completeness auto
termination
  by (relation "measure (\<lambda>(cm, lca, k). k)") auto

declare prompt_k_loop.simps [simp del]

text \<open>The split index: \<^verbatim>\<open>k = max(0, len(self.commited) - 1)\<close>, then the loop.\<close>

definition prompt_k :: "processor \<Rightarrow> nat" where
  "prompt_k s =
     prompt_k_loop (commited s) (last_chunked_at s)
       (nat (max 0 (int (length (commited s)) - 1)))"

text \<open>
  \<^verbatim>\<open>while p and l < 200: x = p.pop(-1); l += len(x) + 1; prompt.append(x)\<close>
\<close>

function prompt_loop :: "string list \<Rightarrow> nat \<Rightarrow> string list \<Rightarrow> string list" where
  "prompt_loop p l acc =
     (if p \<noteq> [] \<and> l < 200
      then prompt_loop (butlast p) (l + (length (last p) + 1)) (acc @ [last p])
      else acc)"
  by pat_completeness auto
termination
  by (relation "measure (\<lambda>(p, l, acc). length p)") auto

declare prompt_loop.simps [simp del]

definition prompt :: "processor \<Rightarrow> string \<times> string" where
  "prompt s =
     (let k = prompt_k s;
          p = map w_text (take k (commited s));
          pr = prompt_loop p 0 [];
          non_prompt = drop k (commited s)
      in (join [] (rev pr), join [] (map w_text non_prompt)))"

subsection \<open>to_flush\<close>

definition to_flush ::
  "tsword list \<Rightarrow> string option \<Rightarrow> real \<Rightarrow> real option \<times> real option \<times> string" where
  "to_flush sents sep offset =
     (let sep1 = (case sep of None \<Rightarrow> [] | Some x \<Rightarrow> x);
          t = join sep1 (map w_text sents)
      in if length sents = 0 then (None, None, t)
         else (Some (offset + w_start (hd sents)), Some (offset + w_end (last sents)), t))"

subsection \<open>chunk_at\<close>

definition chunk_at :: "processor \<Rightarrow> real \<Rightarrow> processor" where
  "chunk_at s time =
     (let tb = pop_commited (transcript_buffer s) time;
          cut_seconds = time - buffer_time_offset s
      in s\<lparr>transcript_buffer := tb,
           audio_buffer :=
             py_slice_from (audio_buffer s) (py_int cut_seconds * int SAMPLING_RATE),
           buffer_time_offset := time,
           last_chunked_at := time\<rparr>)"

subsection \<open>words_to_sentences\<close>

text \<open>
  A sentence is \<^verbatim>\<open>(beg, end, text)\<close>; \<^verbatim>\<open>beg\<close> may still be \<^verbatim>\<open>None\<close>.
  The inner loop \<^verbatim>\<open>while cwords\<close> returns the words left and the output list; the local
  \<^verbatim>\<open>end\<close> is \<^verbatim>\<open>None\<close> whenever the loop tests it, since the branch that sets it
  breaks.
\<close>

type_synonym sentence = "real option \<times> real \<times> string"

fun wts_inner ::
  "real option \<Rightarrow> string \<Rightarrow> string \<Rightarrow> tsword list \<Rightarrow> sentence list
     \<Rightarrow> tsword list \<times> sentence list" where
  "wts_inner beg sent fsent [] out = ([], out)"
| "wts_inner beg sent fsent ((b, e, w) # cwords) out =
     (if beg = None \<and> prefix w sent
      then wts_inner (Some b) (strip (drop (length w) sent)) fsent cwords out
      else if sent = w
      then (cwords, out @ [(beg, e, fsent)])
      else wts_inner beg (strip (drop (length w) sent)) fsent cwords out)"

fun wts_outer :: "string list \<Rightarrow> tsword list \<Rightarrow> sentence list \<Rightarrow> sentence list" where
  "wts_outer [] cwords out = out"
| "wts_outer (x # s) cwords out =
     (case wts_inner None (strip x) (strip x) cwords out of
        (cwords1, out1) \<Rightarrow> wts_outer s cwords1 out1)"

definition words_to_sentences :: "tokenizer \<Rightarrow> tsword list \<Rightarrow> error + sentence list" where
  "words_to_sentences tokenizer_split words =
     (case tokenizer_split (join '' '' (map w_text words)) of
        Inl err \<Rightarrow> Inl err
      | Inr s \<Rightarrow> Inr (wts_outer s words []))"

subsection \<open>chunk_completed_sentence and chunk_completed_segment\<close>

definition chunk_completed_sentence :: "tokenizer \<Rightarrow> processor \<Rightarrow> error + processor" where
  "chunk_completed_sentence tokenizer_split s =
     (if commited s = [] then Inr s
      else case words_to_sentences tokenizer_split (commited s) of
             Inl err \<Rightarrow> Inl err
           | Inr sents \<Rightarrow>
               if length sents < 2 then Inr s
               else (let sents2 = drop (length sents - 2) sents;
                         chunk = fst (snd (sents2 ! (length sents2 - 2)))
                     in Inr (chunk_at s chunk)))"

text \<open>
  \<^verbatim>\<open>while len(ends) > 2 and e > t: ends.pop(-1); e = ends[-2] + self.buffer_time_offset\<close>;
  the result is the last \<open>e\<close>.
\<close>

function seg_loop :: "real list \<Rightarrow> real \<Rightarrow> real \<Rightarrow> real \<Rightarrow> real" where
  "seg_loop ends e offset t =
     (if length ends > 2 \<and> e > t
      then seg_loop (butlast ends)
             (butlast ends ! (length (butlast ends) - 2) + offset) offset t
      else e)"
  by pat_completeness auto
termination
  by (relation "measure (\<lambda>(ends, e, offset, t). length ends)") auto

declare seg_loop.simps [simp del]

definition chunk_completed_segment :: "processor \<Rightarrow> segment list \<Rightarrow> processor" where
  "chunk_completed_segment s res =
     (if commited s = [] then s
      else (let ends = segments_end_ts res;
                t = w_end (last (commited s))
            in if length ends > 1
               then (let e = seg_loop ends (ends ! (length ends - 2) + buffer_time_offset s)
                                (buffer_time_offset s) t
                     in if e \<le> t then chunk_at s e else s)
               else s))"

subsection \<open>process_iter and finish\<close>

text \<open>
  The result is the state the call leaves behind and either the returned triple or the
  exception that left the call.
\<close>

definition process_iter ::
  "transcriber \<Rightarrow> tokenizer \<Rightarrow> processor
     \<Rightarrow> processor \<times> (error + real option \<times> real option \<times> string)" where
  "process_iter transcribe tokenizer_split s =
     (case prompt s of (prompt_text, non_prompt) \<Rightarrow>
        (case transcribe (audio_buffer s) prompt_text of
           Inl err \<Rightarrow> (s, Inl err)
         | Inr res \<Rightarrow>
             (let tsw = ts_words res;
                  tb = insert_words (transcript_buffer s) tsw (buffer_time_offset s)
              in case flush tb of (tb1, out) \<Rightarrow>
                   (let s1 = s\<lparr>transcript_buffer := tb1, commited := commited s @ out\<rparr>
                    in case (if out \<noteq> [] then chunk_completed_sentence tokenizer_split s1
                             else Inr s1) of
                         Inl err \<Rightarrow> (s1, Inl err)
                       | Inr s2 \<Rightarrow>
                           (let s3 = (if real (length (audio_buffer s2)) / real SAMPLING_RATE > 30
                                      then chunk_completed_segment s2 res else s2)
                            in (s3, Inr (to_flush out None 0)))))))"

definition finish :: "processor \<Rightarrow> processor \<times> (real option \<times> real option \<times> string)" where
  "finish s = (s, to_flush (complete (transcript_buffer s)) None 0)"

section \<open>Words of the specification\<close>

text \<open>
  The n-gram comparison as the specification words it: the last \<open>i\<close> committed word texts
  and the first \<open>i\<close> new word texts, each joined by single spaces, are equal.
\<close>

definition spec_ngram_match :: "tsword list \<Rightarrow> tsword list \<Rightarrow> nat \<Rightarrow> bool" where
  "spec_ngram_match cib nw i \<longleftrightarrow>
     join '' '' (map w_text (drop (length cib - i) cib)) = join '' '' (map w_text (take i nw))"

text \<open>
  A word text that is not empty and has no whitespace at either end, so that
  \<^verbatim>\<open>strip\<close> leaves it as it is.
\<close>

definition stripped :: "string \<Rightarrow> bool" where
  "stripped t \<longleftrightarrow> t \<noteq> [] \<and> \<not> py_isspace (hd t) \<and> \<not> py_isspace (last t)"

section \<open>Example states\<close>

text \<open>
  The state before the second \<^verbatim>\<open>flush\<close> of a session: the previous iteration proposed
  two words, the current one proposes the same two and a third.
\<close>

definition ex_second_iter :: hyp_buffer where
  "ex_second_iter =
     \<lparr> commited_in_buffer = [],
       buffer = [(0, 4 / 10, ''hello''), (5 / 10, 9 / 10, '' world'')],
       new = [(0, 4 / 10, ''hello''), (5 / 10, 9 / 10, '' world''),
              (11 / 10, 14 / 10, '' today'')],
       last_commited_time = 0, last_commited_word = None \<rparr>"

text \<open>
  A buffer whose committed words end in \<open>alpha beta\<close>, and a proposal that repeats them.
\<close>

definition ex_dedup :: hyp_buffer where
  "ex_dedup =
     \<lparr> commited_in_buffer = [(2, 25 / 10, ''alpha''), (25 / 10, 3, ''beta'')],
       buffer = [], new = [], last_commited_time = 3, last_commited_word = Some ''beta'' \<rparr>"

definition ex_dedup_words :: "tsword list" where
  "ex_dedup_words =
     [(295 / 100, 31 / 10, ''alpha''), (31 / 10, 33 / 10, ''beta''),
      (33 / 10, 36 / 10, ''gamma'')]"

text \<open>
  Four iterations (\<^verbatim>\<open>insert\<close> then \<^verbatim>\<open>flush\<close>, offset 0) from the initial buffer:
  the transcriber proposes \<open>a b\<close> twice, then twice the word \<open>c\<close> from 1.95 s to 1.98 s.
\<close>

definition ex_ab :: "tsword list" where
  "ex_ab = [(0, 1, ''a''), (1, 2, ''b'')]"

definition ex_c :: "tsword list" where
  "ex_c = [(195 / 100, 198 / 100, ''c'')]"

definition ex_iter1 :: hyp_buffer where
  "ex_iter1 = fst (flush (insert_words hyp_init ex_ab 0))"

definition ex_iter2 :: hyp_buffer where
  "ex_iter2 = fst (flush (insert_words ex_iter1 ex_ab 0))"

definition ex_iter3 :: hyp_buffer where
  "ex_iter3 = fst (flush (insert_words ex_iter2 ex_c 0))"

definition ex_iter4 :: hyp_buffer where
  "ex_iter4 = fst (flush (insert_words ex_iter3 ex_c 0))"

text \<open>
  A processor whose committed log holds two long words and a short one, all of them
  scrolled out of the audio buffer.
\<close>

definition ex_long_words :: processor where
  "ex_long_words =
     init\<lparr>commited := [(0, 1, replicate 150 CHR ''a''), (1, 2, replicate 150 CHR ''b''),
                        (2, 3, ''c'')],
          last_chunked_at := 3\<rparr>"

text \<open>
  A processor with two committed words, both ending at or before \<open>last_chunked_at\<close>.
\<close>

definition ex_scrolled_out :: processor where
  "ex_scrolled_out =
     init\<lparr>commited := [(0, 1, ''a''), (1, 2, '' b'')], last_chunked_at := 2\<rparr>"

text \<open>A tokenizer that returns its input as one sentence.\<close>

definition ex_single_sentence :: tokenizer where
  "ex_single_sentence t = Inr [t]"

text \<open>
  A committed log that ends at 12 s, and three segments that end at 10 s, 20.5 s and 29 s.
\<close>

definition ex_scroll :: processor where
  "ex_scroll = init\<lparr>commited := [(0, 12, ''x'')]\<rparr>"

definition ex_segments :: "segment list" where
  "ex_segments = [\<lparr>seg_end = 10, seg_words = []\<rparr>, \<lparr>seg_end = 205 / 10, seg_words = []\<rparr>,
                  \<lparr>seg_end = 29, seg_words = []\<rparr>]"

text \<open>A transcriber that raises on every call.\<close>

definition ex_failing_transcriber :: transcriber where
  "ex_failing_transcriber audio init_prompt = Inl TranscriberError"








section \<open>Properties of flush\<close>

lemma flush_loop_spec:
  "flush_loop hb acc = (hb1, c) \<Longrightarrow>
   \<exists>n. n \<le> length (new hb) \<and> n \<le> length (buffer hb)
     \<and> c = acc @ take n (new hb)
     \<and> map w_text (take n (new hb)) = map w_text (take n (buffer hb))
     \<and> (n < length (new hb) \<and> n < length (buffer hb)
          \<longrightarrow> w_text (new hb ! n) \<noteq> w_text (buffer hb ! n))
     \<and> new hb1 = drop n (new hb) \<and> buffer hb1 = drop n (buffer hb)
     \<and> commited_in_buffer hb1 = commited_in_buffer hb
     \<and> (n = 0 \<longrightarrow> last_commited_time hb1 = last_commited_time hb
                  \<and> last_commited_word hb1 = last_commited_word hb)
     \<and> (0 < n \<longrightarrow> last_commited_time hb1 = w_end (new hb ! (n - 1))
                  \<and> last_commited_word hb1 = Some (w_text (new hb ! (n - 1))))"
proof (induction hb acc arbitrary: hb1 c rule: flush_loop.induct)
  case (1 hb commit)
  show ?case
  proof (cases "new hb")
    case Nil
    with "1.prems" show ?thesis
      by (intro exI[of _ 0]) (simp add: flush_loop.simps[of hb commit])
  next
    case (Cons nwd new_rest)
    obtain na nb nt where nwd: "nwd = (na, nb, nt)" by (cases nwd) auto
    show ?thesis
    proof (cases "buffer hb")
      case Nil
      with Cons nwd "1.prems" show ?thesis
        by (intro exI[of _ 0]) (simp add: flush_loop.simps[of hb commit])
    next
      case bc: (Cons bw buffer_rest)
      show ?thesis
      proof (cases "nt = w_text bw")
        case False
        with Cons nwd bc "1.prems" show ?thesis
          by (intro exI[of _ 0]) (simp add: flush_loop.simps[of hb commit] w_text_def)
      next
        case True
        let ?hb' = "hb\<lparr>last_commited_word := Some nt, last_commited_time := nb,
                          buffer := buffer_rest, new := new_rest\<rparr>"
        from Cons nwd bc True "1.prems"
        have rec: "flush_loop ?hb' (commit @ [(na, nb, nt)]) = (hb1, c)"
          by (simp add: flush_loop.simps[of hb commit])
        from "1.IH"[OF Cons _ _ bc True rec] Cons nwd
        obtain n where n:
          "n \<le> length new_rest" "n \<le> length buffer_rest"
          "c = (commit @ [(na, nb, nt)]) @ take n new_rest"
          "map w_text (take n new_rest) = map w_text (take n buffer_rest)"
          "n < length new_rest \<and> n < length buffer_rest
             \<longrightarrow> w_text (new_rest ! n) \<noteq> w_text (buffer_rest ! n)"
          "new hb1 = drop n new_rest" "buffer hb1 = drop n buffer_rest"
          "commited_in_buffer hb1 = commited_in_buffer hb"
          "n = 0 \<longrightarrow> last_commited_time hb1 = nb \<and> last_commited_word hb1 = Some nt"
          "0 < n \<longrightarrow> last_commited_time hb1 = w_end (new_rest ! (n - 1))
                  \<and> last_commited_word hb1 = Some (w_text (new_rest ! (n - 1)))"
          by auto
        show ?thesis
        proof (intro exI[of _ "Suc n"] conjI)
          show "Suc n \<le> length (new hb)" using n Cons by simp
          show "Suc n \<le> length (buffer hb)" using n bc by simp
          show "c = commit @ take (Suc n) (new hb)" using n Cons nwd by simp
          show "map w_text (take (Suc n) (new hb)) = map w_text (take (Suc n) (buffer hb))"
            using n Cons nwd bc True by (simp add: w_text_def)
          show "Suc n < length (new hb) \<and> Suc n < length (buffer hb)
                  \<longrightarrow> w_text (new hb ! Suc n) \<noteq> w_text (buffer hb ! Suc n)"
            using n Cons bc by simp
          show "new hb1 = drop (Suc n) (new hb)" using n Cons by simp
          show "buffer hb1 = drop (Suc n) (buffer hb)" using n bc by simp
          show "commited_in_buffer hb1 = commited_in_buffer hb" using n by simp
          show "Suc n = 0 \<longrightarrow> last_commited_time hb1 = last_commited_time hb
                  \<and> last_commited_word hb1 = last_commited_word hb" by simp
          show "0 < Suc n \<longrightarrow> last_commited_time hb1 = w_end (new hb ! (Suc n - 1))
                  \<and> last_commited_word hb1 = Some (w_text (new hb ! (Suc n - 1)))"
            using n Cons nwd by (cases n) (simp_all add: w_end_def w_text_def)
        qed
      qed
    qed
  qed
qed

lemma lcp_take:
  "n \<le> length xs \<Longrightarrow> n \<le> length ys \<Longrightarrow> take n xs = take n ys \<Longrightarrow>
   (n < length xs \<and> n < length ys \<longrightarrow> xs ! n \<noteq> ys ! n) \<Longrightarrow>
   longest_common_prefix xs ys = take n xs"
proof (induction xs ys arbitrary: n rule: longest_common_prefix.induct)
  case (1 x xs y ys)
  then show ?case by (cases n) auto
qed auto

text \<open>
  Claim C1. \<^verbatim>\<open>flush\<close> returns the longest common prefix of \<open>new\<close> and \<open>buffer\<close>,
  compared by text and in order; the returned words are those of \<open>new\<close>. They are appended
  to \<open>commited_in_buffer\<close>, the last of them gives \<open>last_commited_time\<close> (its end) and
  \<open>last_commited_word\<close> (its text), \<open>buffer\<close> becomes the rest of \<open>new\<close> and \<open>new\<close>
  becomes empty. With \<open>new\<close> or \<open>buffer\<close> empty nothing is returned.
\<close>

theorem flush_commits_longest_common_prefix:
  assumes "flush hb = (hb', c)"
  shows "map w_text c = longest_common_prefix (map w_text (new hb)) (map w_text (buffer hb))
       \<and> c = take (length c) (new hb)
       \<and> commited_in_buffer hb' = commited_in_buffer hb @ c
       \<and> buffer hb' = drop (length c) (new hb)
       \<and> new hb' = []
       \<and> (c \<noteq> [] \<longrightarrow> last_commited_time hb' = w_end (last c)
                     \<and> last_commited_word hb' = Some (w_text (last c)))
       \<and> (c = [] \<longrightarrow> last_commited_time hb' = last_commited_time hb
                     \<and> last_commited_word hb' = last_commited_word hb)
       \<and> (new hb = [] \<or> buffer hb = [] \<longrightarrow> c = [])"
proof -
  obtain hb1 where fl: "flush_loop hb [] = (hb1, c)"
    and hb': "hb' = hb1\<lparr>buffer := new hb1, new := [],
                         commited_in_buffer := commited_in_buffer hb1 @ c\<rparr>"
    using assms by (auto simp: flush_def split: prod.splits)
  from flush_loop_spec[OF fl] obtain n where n:
    "n \<le> length (new hb)" "n \<le> length (buffer hb)"
    "c = take n (new hb)"
    "map w_text (take n (new hb)) = map w_text (take n (buffer hb))"
    "n < length (new hb) \<and> n < length (buffer hb)
       \<longrightarrow> w_text (new hb ! n) \<noteq> w_text (buffer hb ! n)"
    "new hb1 = drop n (new hb)" "buffer hb1 = drop n (buffer hb)"
    "commited_in_buffer hb1 = commited_in_buffer hb"
    "n = 0 \<longrightarrow> last_commited_time hb1 = last_commited_time hb
                  \<and> last_commited_word hb1 = last_commited_word hb"
    "0 < n \<longrightarrow> last_commited_time hb1 = w_end (new hb ! (n - 1))
                  \<and> last_commited_word hb1 = Some (w_text (new hb ! (n - 1)))"
    by auto
  have len: "length c = n" using n by simp
  have lcp: "longest_common_prefix (map w_text (new hb)) (map w_text (buffer hb))
               = take n (map w_text (new hb))"
    using n by (intro lcp_take) (simp_all add: take_map)
  have lastc: "c \<noteq> [] \<Longrightarrow> last c = new hb ! (n - 1)"
    using n by (simp add: last_conv_nth)
  show ?thesis
    using n len lcp lastc hb' by (auto simp: take_map)
qed

theorem flush_commits_longest_common_prefix_witness:
  "flush ex_second_iter =
     (\<lparr> commited_in_buffer = [(0, 4 / 10, ''hello''), (5 / 10, 9 / 10, '' world'')],
        buffer = [(11 / 10, 14 / 10, '' today'')], new = [],
        last_commited_time = 9 / 10, last_commited_word = Some '' world'' \<rparr>,
      [(0, 4 / 10, ''hello''), (5 / 10, 9 / 10, '' world'')])
   \<and> map w_text [(0, 4 / 10, ''hello''), (5 / 10, 9 / 10, '' world'')]
       = longest_common_prefix (map w_text (new ex_second_iter))
           (map w_text (buffer ex_second_iter))
   \<and> snd (flush (hyp_init\<lparr>new := [(0, 1, ''a'')]\<rparr>)) = []"
proof -
  have h: "flush ex_second_iter =
     (\<lparr> commited_in_buffer = [(0, 4 / 10, ''hello''), (5 / 10, 9 / 10, '' world'')],
        buffer = [(11 / 10, 14 / 10, '' today'')], new = [],
        last_commited_time = 9 / 10, last_commited_word = Some '' world'' \<rparr>,
      [(0, 4 / 10, ''hello''), (5 / 10, 9 / 10, '' world'')])"
    by (simp add: ex_second_iter_def flush_def flush_loop.simps w_text_def)
  have e: "buffer (hyp_init\<lparr>new := [(0, 1, ''a'')]\<rparr>) = []"
    by (simp add: hyp_init_def)
  have "snd (flush (hyp_init\<lparr>new := [(0, 1, ''a'')]\<rparr>)) = []"
    using flush_commits_longest_common_prefix
            [of "hyp_init\<lparr>new := [(0, 1, ''a'')]\<rparr>"
                "fst (flush (hyp_init\<lparr>new := [(0, 1, ''a'')]\<rparr>))"
                "snd (flush (hyp_init\<lparr>new := [(0, 1, ''a'')]\<rparr>))"] e
    by simp
  with flush_commits_longest_common_prefix[OF h] h show ?thesis
    by (simp add: ex_second_iter_def w_text_def)
qed

section \<open>Properties of insert\<close>

lemma insert_words_new:
  "insert_words hb nw offset =
     hb\<lparr>new :=
          (if kept_words hb nw offset \<noteq> []
              \<and> \<bar>w_start (hd (kept_words hb nw offset)) - last_commited_time hb\<bar> < 1
              \<and> commited_in_buffer hb \<noteq> []
           then ngram_loop (commited_in_buffer hb) (kept_words hb nw offset) 1
                  (min (min (length (commited_in_buffer hb))
                            (length (kept_words hb nw offset))) 5)
           else kept_words hb nw offset)\<rparr>"
proof (cases "kept_words hb nw offset")
  case Nil
  then show ?thesis by (simp add: insert_words_def)
next
  case (Cons w ws)
  obtain a b t where w: "w = (a, b, t)" by (cases w) auto
  show ?thesis
    by (simp add: insert_words_def Cons w w_start_def Let_def)
qed

lemma kept_words_mem:
  assumes "w \<in> set (kept_words hb nw offset)"
  shows "\<exists>x\<in>set nw. w = (w_start x + offset, w_end x + offset, w_text x)
           \<and> w_start x + offset > last_commited_time hb - 1 / 10"
proof -
  from assms have wm: "w \<in> set (map (\<lambda>(a, b, t). (a + offset, b + offset, t)) nw)"
    and wk: "(\<lambda>(a, b, t). a > last_commited_time hb - 1 / 10) w"
    unfolding kept_words_def Let_def by simp_all
  from wm obtain x where x: "x \<in> set nw" "w = (\<lambda>(a, b, t). (a + offset, b + offset, t)) x"
    by auto
  obtain a b t where xv: "x = (a, b, t)" by (cases x) auto
  from x(2) wk xv have "w = (w_start x + offset, w_end x + offset, w_text x)"
    "w_start x + offset > last_commited_time hb - 1 / 10"
    by (simp_all add: w_start_def w_end_def w_text_def)
  with x(1) show ?thesis by blast
qed

lemma ngram_c_last_words:
  assumes "i \<le> length cib"
  shows "ngram_c cib i = join '' '' (map w_text (drop (length cib - i) cib))"
proof -
  have "rev (map (\<lambda>j. w_text (cib ! (length cib - j))) [1 ..< i + 1])
          = map w_text (drop (length cib - i) cib)"
  proof (rule nth_equalityI)
    show "length (rev (map (\<lambda>j. w_text (cib ! (length cib - j))) [1 ..< i + 1]))
            = length (map w_text (drop (length cib - i) cib))"
      using assms by (simp del: upt_Suc)
  next
    fix k
    assume "k < length (rev (map (\<lambda>j. w_text (cib ! (length cib - j))) [1 ..< i + 1]))"
    then have k: "k < i" by (simp del: upt_Suc)
    have "length cib - (1 + (i - Suc k)) = length cib - i + k"
      using k assms by arith
    then show "rev (map (\<lambda>j. w_text (cib ! (length cib - j))) [1 ..< i + 1]) ! k
                 = map w_text (drop (length cib - i) cib) ! k"
      using k assms by (simp add: rev_nth del: upt_Suc)
  qed
  then show ?thesis by (simp add: ngram_c_def)
qed

lemma ngram_tail_first_words:
  assumes "i \<le> length nw"
  shows "ngram_tail nw i = join '' '' (map w_text (take i nw))"
proof -
  have "map (\<lambda>j. w_text (nw ! (j - 1))) [1 ..< i + 1] = map w_text (take i nw)"
    using assms by (intro nth_equalityI) (simp_all del: upt_Suc)
  then show ?thesis by (simp add: ngram_tail_def)
qed

lemma ngram_match_iff:
  "i \<le> length cib \<Longrightarrow> i \<le> length nw \<Longrightarrow>
   (ngram_c cib i = ngram_tail nw i) = spec_ngram_match cib nw i"
  by (simp add: ngram_c_last_words ngram_tail_first_words spec_ngram_match_def)

lemma ngram_loop_find:
  "1 \<le> i \<Longrightarrow> m \<le> length cib \<Longrightarrow> m \<le> length nw \<Longrightarrow>
   ngram_loop cib nw i m =
     (case List.find (spec_ngram_match cib nw) [i ..< Suc m] of
        None \<Rightarrow> nw | Some k \<Rightarrow> drop k nw)"
proof (induction cib nw i m rule: ngram_loop.induct)
  case (1 cib nw i m)
  show ?case
  proof (cases "m < i")
    case True
    then show ?thesis
      by (simp add: ngram_loop.simps[of cib nw i m] del: upt_Suc)
  next
    case notlt: False
    then have upt: "[i ..< Suc m] = i # [Suc i ..< Suc m]"
      by (simp add: upt_conv_Cons del: upt_Suc)
    from notlt "1.prems" have iff: "(ngram_c cib i = ngram_tail nw i) = spec_ngram_match cib nw i"
      by (simp add: ngram_match_iff)
    show ?thesis
    proof (cases "ngram_c cib i = ngram_tail nw i")
      case True
      with notlt iff upt show ?thesis
        by (simp add: ngram_loop.simps[of cib nw i m] del: upt_Suc)
    next
      case False
      have "ngram_loop cib nw (i + 1) m =
              (case List.find (spec_ngram_match cib nw) [i + 1 ..< Suc m] of
                 None \<Rightarrow> nw | Some k \<Rightarrow> drop k nw)"
        using "1.prems" by (intro "1.IH"[OF notlt False]) simp_all
      with False notlt iff upt show ?thesis
        by (simp add: ngram_loop.simps[of cib nw i m] del: upt_Suc)
    qed
  qed
qed

lemma find_upt_first:
  assumes "List.find P [1 ..< Suc m] = Some k"
  shows "1 \<le> k \<and> k \<le> m \<and> P k \<and> (\<forall>j. 1 \<le> j \<and> j < k \<longrightarrow> \<not> P j)"
proof -
  from assms obtain i0 where i0: "i0 < length [1 ..< Suc m]" "P ([1 ..< Suc m] ! i0)"
      "k = [1 ..< Suc m] ! i0" "\<forall>j<i0. \<not> P ([1 ..< Suc m] ! j)"
    unfolding find_Some_iff by blast
  from i0(1) have lt: "i0 < m" by (simp del: upt_Suc)
  then have kv: "k = 1 + i0" using i0(3) by (simp del: upt_Suc)
  have "\<not> P j" if "1 \<le> j" "j < k" for j
  proof -
    from that kv have "j - 1 < i0" by arith
    with i0(4) have "\<not> P ([1 ..< Suc m] ! (j - 1))" by blast
    moreover from that kv lt have "[1 ..< Suc m] ! (j - 1) = j" by (simp del: upt_Suc)
    ultimately show ?thesis by simp
  qed
  moreover from i0(2,3) have "P k" by simp
  ultimately show ?thesis using kv lt by auto
qed

lemma find_upt_none:
  assumes "List.find P [1 ..< Suc m] = None"
  shows "\<forall>j. 1 \<le> j \<and> j \<le> m \<longrightarrow> \<not> P j"
  using assms unfolding find_None_iff by (auto simp del: upt_Suc)

text \<open>
  Claim C2. With \<open>commited_in_buffer\<close> non-empty, and the first kept word starting within
  one second of \<open>last_commited_time\<close>, \<^verbatim>\<open>insert\<close> drops exactly the first \<open>i\<close> kept
  words, where \<open>i\<close> is the smallest number from 1 to \<open>min(cn, nn, 5)\<close> whose n-grams
  match, and drops none when no such number exists; so at most 5 words are dropped. The
  other fields keep their values.
\<close>

theorem insert_drops_smallest_ngram:
  assumes "commited_in_buffer hb \<noteq> []"
    and "kept_words hb nw offset \<noteq> []"
    and "\<bar>w_start (hd (kept_words hb nw offset)) - last_commited_time hb\<bar> < 1"
  shows "\<exists>i. insert_words hb nw offset = hb\<lparr>new := drop i (kept_words hb nw offset)\<rparr>
           \<and> i \<le> min (min (length (commited_in_buffer hb))
                           (length (kept_words hb nw offset))) 5
           \<and> (0 < i \<longrightarrow>
                 spec_ngram_match (commited_in_buffer hb) (kept_words hb nw offset) i
                 \<and> (\<forall>j. 1 \<le> j \<and> j < i \<longrightarrow>
                        \<not> spec_ngram_match (commited_in_buffer hb) (kept_words hb nw offset) j))
           \<and> (i = 0 \<longrightarrow>
                 (\<forall>j. 1 \<le> j
                     \<and> j \<le> min (min (length (commited_in_buffer hb))
                                     (length (kept_words hb nw offset))) 5 \<longrightarrow>
                     \<not> spec_ngram_match (commited_in_buffer hb) (kept_words hb nw offset) j))
           \<and> length (kept_words hb nw offset) - length (new (insert_words hb nw offset)) \<le> 5"
proof -
  define kept where "kept = kept_words hb nw offset"
  let ?m = "min (min (length (commited_in_buffer hb)) (length kept)) 5"
  let ?P = "spec_ngram_match (commited_in_buffer hb) kept"
  have ins: "insert_words hb nw offset
               = hb\<lparr>new := ngram_loop (commited_in_buffer hb) kept 1 ?m\<rparr>"
    using assms by (simp add: insert_words_new kept_def)
  have loop: "ngram_loop (commited_in_buffer hb) kept 1 ?m =
          (case List.find ?P [1 ..< Suc ?m] of None \<Rightarrow> kept | Some k \<Rightarrow> drop k kept)"
    by (rule ngram_loop_find) simp_all
  have "\<exists>i. insert_words hb nw offset = hb\<lparr>new := drop i kept\<rparr>
           \<and> i \<le> ?m
           \<and> (0 < i \<longrightarrow> ?P i \<and> (\<forall>j. 1 \<le> j \<and> j < i \<longrightarrow> \<not> ?P j))
           \<and> (i = 0 \<longrightarrow> (\<forall>j. 1 \<le> j \<and> j \<le> ?m \<longrightarrow> \<not> ?P j))
           \<and> length kept - length (new (insert_words hb nw offset)) \<le> 5"
  proof (cases "List.find ?P [1 ..< Suc ?m]")
    case None
    from find_upt_none[OF None] have "\<forall>j. 1 \<le> j \<and> j \<le> ?m \<longrightarrow> \<not> ?P j" .
    moreover from None loop ins have "insert_words hb nw offset = hb\<lparr>new := drop 0 kept\<rparr>"
      by simp
    ultimately show ?thesis
      by (intro exI[of _ 0]) simp
  next
    case (Some k)
    from find_upt_first[OF Some]
    have k: "1 \<le> k" "k \<le> ?m" "?P k" "\<forall>j. 1 \<le> j \<and> j < k \<longrightarrow> \<not> ?P j"
      by blast+
    from Some loop ins have eq: "insert_words hb nw offset = hb\<lparr>new := drop k kept\<rparr>"
      by simp
    have "length kept - length (drop k kept) \<le> 5" using k(2) by simp
    with eq k show ?thesis
      by (intro exI[of _ k]) simp
  qed
  then show ?thesis unfolding kept_def .
qed

theorem insert_drops_smallest_ngram_witness:
  "commited_in_buffer ex_dedup \<noteq> []
   \<and> kept_words ex_dedup ex_dedup_words 0 = ex_dedup_words
   \<and> \<bar>w_start (hd (kept_words ex_dedup ex_dedup_words 0)) - last_commited_time ex_dedup\<bar> < 1
   \<and> new (insert_words ex_dedup ex_dedup_words 0) = [(33 / 10, 36 / 10, ''gamma'')]
   \<and> length (kept_words ex_dedup ex_dedup_words 0)
        - length (new (insert_words ex_dedup ex_dedup_words 0)) \<le> 5"
proof -
  have h1: "commited_in_buffer ex_dedup \<noteq> []" by (simp add: ex_dedup_def)
  have k: "kept_words ex_dedup ex_dedup_words 0 = ex_dedup_words"
    by (simp add: kept_words_def ex_dedup_def ex_dedup_words_def)
  have h2: "kept_words ex_dedup ex_dedup_words 0 \<noteq> []"
    unfolding k by (simp add: ex_dedup_words_def)
  have h3: "\<bar>w_start (hd (kept_words ex_dedup ex_dedup_words 0))
              - last_commited_time ex_dedup\<bar> < 1"
    unfolding k by (simp add: ex_dedup_def ex_dedup_words_def w_start_def)
  have v: "new (insert_words ex_dedup ex_dedup_words 0) = [(33 / 10, 36 / 10, ''gamma'')]"
    by code_simp
  from insert_drops_smallest_ngram[OF h1 h2 h3]
  have "length (kept_words ex_dedup ex_dedup_words 0)
          - length (new (insert_words ex_dedup ex_dedup_words 0)) \<le> 5"
    by blast
  with h1 k h3 v show ?thesis by blast
qed

section \<open>Time of the last commit\<close>

lemma ngram_loop_subset: "set (ngram_loop cib nw i m) \<subseteq> set nw"
proof (induction cib nw i m rule: ngram_loop.induct)
  case (1 cib nw i m)
  show ?case
  proof (cases "m < i \<or> ngram_c cib i = ngram_tail nw i")
    case True
    then show ?thesis
      using set_drop_subset[of i nw] by (auto simp add: ngram_loop.simps[of cib nw i m])
  next
    case False
    with "1.IH" show ?thesis
      by (simp add: ngram_loop.simps[of cib nw i m])
  qed
qed

lemma insert_words_new_subset:
  "set (new (insert_words hb nw offset)) \<subseteq> set (kept_words hb nw offset)"
  using ngram_loop_subset[of "commited_in_buffer hb" "kept_words hb nw offset"]
  by (simp add: insert_words_new)

lemma insert_words_frame:
  "last_commited_time (insert_words hb nw offset) = last_commited_time hb
   \<and> last_commited_word (insert_words hb nw offset) = last_commited_word hb
   \<and> commited_in_buffer (insert_words hb nw offset) = commited_in_buffer hb
   \<and> buffer (insert_words hb nw offset) = buffer hb"
  by (simp add: insert_words_new)

lemma flush_time_cases:
  "last_commited_time (fst (flush hb)) = last_commited_time hb
   \<or> (\<exists>w\<in>set (new hb). last_commited_time (fst (flush hb)) = w_end w)"
proof -
  obtain hb1 c where fl: "flush_loop hb [] = (hb1, c)" by (cases "flush_loop hb []") auto
  then have t: "last_commited_time (fst (flush hb)) = last_commited_time hb1"
    by (simp add: flush_def)
  from flush_loop_spec[OF fl] obtain n where n: "n \<le> length (new hb)"
    "n = 0 \<longrightarrow> last_commited_time hb1 = last_commited_time hb"
    "0 < n \<longrightarrow> last_commited_time hb1 = w_end (new hb ! (n - 1))"
    by blast
  show ?thesis
  proof (cases n)
    case 0
    with n t show ?thesis by simp
  next
    case (Suc k)
    with n have "new hb ! k \<in> set (new hb)" by (intro nth_mem) simp
    with n t Suc show ?thesis by auto
  qed
qed

text \<open>
  Claim C3, amended. \<open>last_commited_time\<close> may decrease, by less than 0.1 s in one
  iteration: after \<^verbatim>\<open>insert\<close> of words that start no later than they end and the
  \<^verbatim>\<open>flush\<close> that follows, it is greater than its value before minus 0.1.
\<close>

theorem iteration_time_slack:
  assumes "\<forall>w\<in>set nw. w_start w \<le> w_end w"
  shows "last_commited_time (fst (flush (insert_words hb nw offset)))
           > last_commited_time hb - 1 / 10"
proof -
  let ?hb = "insert_words hb nw offset"
  have lct: "last_commited_time ?hb = last_commited_time hb"
    by (simp add: insert_words_frame)
  from flush_time_cases[of ?hb] show ?thesis
  proof
    assume "last_commited_time (fst (flush ?hb)) = last_commited_time ?hb"
    with lct show ?thesis by simp
  next
    assume "\<exists>w\<in>set (new ?hb). last_commited_time (fst (flush ?hb)) = w_end w"
    then obtain w where w: "w \<in> set (new ?hb)"
      "last_commited_time (fst (flush ?hb)) = w_end w" by blast
    from w(1) insert_words_new_subset[of hb nw offset]
    have "w \<in> set (kept_words hb nw offset)" by blast
    from kept_words_mem[OF this] obtain x where x: "x \<in> set nw"
      "w = (w_start x + offset, w_end x + offset, w_text x)"
      "w_start x + offset > last_commited_time hb - 1 / 10"
      by blast
    from assms x(1) have "w_start x \<le> w_end x" by blast
    with x w(2) show ?thesis by (simp add: w_end_def)
  qed
qed

theorem iteration_time_slack_witness:
  "ex_c = [(195 / 100, 198 / 100, ''c'')]
   \<and> w_start (195 / 100, 198 / 100, ''c'') \<le> w_end (195 / 100, 198 / 100, ''c'')
   \<and> last_commited_time (fst (flush (insert_words ex_iter3 ex_c 0)))
        > last_commited_time ex_iter3 - 1 / 10"
proof -
  have h: "\<forall>w\<in>set ex_c. w_start w \<le> w_end w"
    by (simp add: ex_c_def w_start_def w_end_def)
  from iteration_time_slack[OF h] show ?thesis
    by (simp add: ex_c_def w_start_def w_end_def)
qed

text \<open>
  Claim C3 as stated fails: the third flush leaves \<open>last_commited_time\<close> at 2, the fourth
  commits the word ending at 1.98 and leaves it there.
\<close>

theorem last_commited_time_decreases:
  "last_commited_time ex_iter3 = 2 \<and> last_commited_time ex_iter4 = 198 / 100
   \<and> \<not> last_commited_time ex_iter3 \<le> last_commited_time ex_iter4"
proof -
  have a: "last_commited_time ex_iter3 = 2" by code_simp
  have b: "last_commited_time ex_iter4 = 198 / 100" by code_simp
  show ?thesis unfolding a b by simp
qed

section \<open>The prompt\<close>

text \<open>
  What the loops of \<^verbatim>\<open>prompt\<close> do guarantee: the prompt is shorter than 200 characters
  plus the longest committed word, and the split index is the largest \<open>k\<close> below the
  length of the log whose prefix ends at or before \<open>last_chunked_at\<close>.
\<close>

lemma length_join_empty: "length (join [] xs) = sum_list (map length xs)"
  by (induction "[] :: string" xs rule: join.induct) simp_all

lemma prompt_loop_bound:
  assumes "\<forall>x\<in>set p. length x \<le> M" and "\<forall>x\<in>set acc. length x \<le> M"
    and "l = sum_list (map length acc) + length acc"
    and "acc \<noteq> [] \<longrightarrow> sum_list (map length (butlast acc)) + length (butlast acc) < 200"
  shows "sum_list (map length (prompt_loop p l acc)) < 200 + M"
  using assms
proof (induction p l acc rule: prompt_loop.induct)
  case (1 p l acc)
  show ?case
  proof (cases "p \<noteq> [] \<and> l < 200")
    case True
    then have lastp: "last p \<in> set p" by simp
    have sub: "set (butlast p) \<subseteq> set p" by (meson in_set_butlastD subsetI)
    have "sum_list (map length
            (prompt_loop (butlast p) (l + (length (last p) + 1)) (acc @ [last p]))) < 200 + M"
    proof (rule "1.IH"[OF True])
      show "\<forall>x\<in>set (butlast p). length x \<le> M" using "1.prems"(1) sub by blast
      show "\<forall>x\<in>set (acc @ [last p]). length x \<le> M"
        using "1.prems"(1,2) lastp by auto
      show "l + (length (last p) + 1)
              = sum_list (map length (acc @ [last p])) + length (acc @ [last p])"
        using "1.prems"(3) by simp
      show "acc @ [last p] \<noteq> [] \<longrightarrow>
              sum_list (map length (butlast (acc @ [last p]))) + length (butlast (acc @ [last p]))
                < 200"
        using "1.prems"(3) True by simp
    qed
    with True show ?thesis by (simp add: prompt_loop.simps[of p l acc])
  next
    case False
    then have res: "prompt_loop p l acc = acc" by (auto simp add: prompt_loop.simps[of p l acc])
    show ?thesis
    proof (cases "acc = []")
      case True
      with res show ?thesis by simp
    next
      case ne: False
      then have split: "acc = butlast acc @ [last acc]" by simp
      have "sum_list (map length acc)
              = sum_list (map length (butlast acc)) + length (last acc)"
        by (subst split) simp
      moreover have "length (last acc) \<le> M" using "1.prems"(2) ne by simp
      ultimately show ?thesis using "1.prems"(4) ne res by simp
    qed
  qed
qed

lemma prompt_length_bound:
  assumes "\<forall>w\<in>set (commited s). length (w_text w) \<le> M"
  shows "length (fst (prompt s)) < 200 + M"
proof -
  let ?p = "map w_text (take (prompt_k s) (commited s))"
  have "\<forall>x\<in>set ?p. length x \<le> M"
    using assms by (auto dest: in_set_takeD)
  then have "sum_list (map length (prompt_loop ?p 0 [])) < 200 + M"
    by (rule prompt_loop_bound) simp_all
  then show ?thesis
    by (simp add: prompt_def Let_def length_join_empty rev_map[symmetric] sum_list_rev)
qed

lemma prompt_k_loop_spec:
  "k0 \<le> length cm \<Longrightarrow>
   prompt_k_loop cm lca k0 \<le> k0
   \<and> (0 < prompt_k_loop cm lca k0 \<longrightarrow> w_end (cm ! (prompt_k_loop cm lca k0 - 1)) \<le> lca)
   \<and> (\<forall>j. prompt_k_loop cm lca k0 < j \<and> j \<le> k0 \<longrightarrow> lca < w_end (cm ! (j - 1)))"
proof (induction cm lca k0 rule: prompt_k_loop.induct)
  case (1 cm lca k)
  show ?case
  proof (cases "k > 0 \<and> w_end (cm ! (k - 1)) > lca")
    case True
    then have eq: "prompt_k_loop cm lca k = prompt_k_loop cm lca (k - 1)"
      by (simp add: prompt_k_loop.simps[of cm lca k])
    from "1.prems" have "k - 1 \<le> length cm" by simp
    from "1.IH"[OF True this]
    have ih: "prompt_k_loop cm lca (k - 1) \<le> k - 1"
      "0 < prompt_k_loop cm lca (k - 1) \<longrightarrow>
          w_end (cm ! (prompt_k_loop cm lca (k - 1) - 1)) \<le> lca"
      "\<forall>j. prompt_k_loop cm lca (k - 1) < j \<and> j \<le> k - 1 \<longrightarrow> lca < w_end (cm ! (j - 1))"
      by blast+
    have "lca < w_end (cm ! (j - 1))" if "prompt_k_loop cm lca (k - 1) < j" "j \<le> k" for j
    proof (cases "j = k")
      case True
      with \<open>k > 0 \<and> w_end (cm ! (k - 1)) > lca\<close> show ?thesis by simp
    next
      case False
      with that have "j \<le> k - 1" by arith
      with that(1) ih(3) show ?thesis by blast
    qed
    with ih(1,2) show ?thesis unfolding eq by auto
  next
    case False
    then have eq: "prompt_k_loop cm lca k = k"
      by (auto simp add: prompt_k_loop.simps[of cm lca k])
    from False show ?thesis unfolding eq by auto
  qed
qed

lemma prompt_k_below_length:
  "commited s \<noteq> [] \<Longrightarrow> prompt_k s < length (commited s)"
proof -
  assume ne: "commited s \<noteq> []"
  let ?k0 = "nat (max 0 (int (length (commited s)) - 1))"
  from ne have k0: "?k0 = length (commited s) - 1" by simp
  then have "?k0 \<le> length (commited s)" by simp
  from prompt_k_loop_spec[OF this, of "last_chunked_at s"]
  have "prompt_k s \<le> ?k0" by (simp add: prompt_k_def)
  with k0 ne show ?thesis by (cases "commited s") auto
qed

text \<open>
  Claim C4 fails on the code. The loop of \<^verbatim>\<open>prompt\<close> tests \<open>l < 200\<close> before it takes
  a word, so the word that reaches the limit is taken whole: two words of 150 characters give
  a prompt of 300 characters.
\<close>

theorem prompt_longer_than_200:
  "prompt_k ex_long_words = 2 \<and> length (fst (prompt ex_long_words)) = 300"
  by (simp add: ex_long_words_def init_def prompt_def prompt_k_def prompt_k_loop.simps
        prompt_loop.simps w_end_def w_text_def Let_def)

text \<open>
  Claim C5 fails on the code. \<open>k\<close> starts at \<^verbatim>\<open>len(self.commited) - 1\<close>, so the last
  committed word is never part of the prefix: with two committed words that both end at or
  before \<open>last_chunked_at\<close> the split index is 1, not 2, and the last word is context, not
  prompt.
\<close>

theorem prompt_split_excludes_last_word:
  "w_end (0, 1, ''a'') \<le> last_chunked_at ex_scrolled_out
   \<and> w_end (1, 2, '' b'') \<le> last_chunked_at ex_scrolled_out
   \<and> length (commited ex_scrolled_out) = 2
   \<and> prompt_k ex_scrolled_out = 1
   \<and> prompt ex_scrolled_out = (''a'', '' b'')"
  by (simp add: ex_scrolled_out_def init_def prompt_def prompt_k_def prompt_k_loop.simps
        prompt_loop.simps w_end_def w_text_def Let_def)

section \<open>Sentences\<close>

text \<open>
  The projection does work for at least two words whose texts are not empty and carry no
  whitespace at their ends: one sentence, from the start of the first word to the end of
  the last.
\<close>

lemma strip_stripped: "stripped t \<Longrightarrow> strip t = t"
proof -
  assume st: "stripped t"
  then obtain c cs where t: "t = c # cs" "\<not> py_isspace c"
    by (cases t) (auto simp: stripped_def)
  then have a: "dropWhile py_isspace t = t" by simp
  from st have "rev t \<noteq> []" "\<not> py_isspace (hd (rev t))"
    by (auto simp: stripped_def hd_rev)
  then obtain d ds where "rev t = d # ds" "\<not> py_isspace d" by (cases "rev t") auto
  then have "dropWhile py_isspace (rev t) = rev t" by simp
  with a show ?thesis by (simp add: strip_def)
qed

lemma strip_space_stripped: "stripped t \<Longrightarrow> strip ('' '' @ t) = t"
proof -
  assume st: "stripped t"
  then obtain c cs where t: "t = c # cs" "\<not> py_isspace c"
    by (cases t) (auto simp: stripped_def)
  have sp: "py_isspace CHR '' ''" by (simp add: py_isspace_def)
  from t sp have "dropWhile py_isspace ('' '' @ t) = t" by simp
  moreover from t have "dropWhile py_isspace t = t" by simp
  ultimately have "strip ('' '' @ t) = strip t" unfolding strip_def by (simp only:)
  with st show ?thesis by (simp add: strip_stripped)
qed

lemma join_stripped:
  "ts \<noteq> [] \<Longrightarrow> \<forall>t\<in>set ts. stripped t \<Longrightarrow> stripped (join '' '' ts)"
proof (induction "'' ''" ts rule: join.induct)
  case 1
  then show ?case by simp
next
  case (2 x)
  then show ?case by simp
next
  case (3 x y ys)
  then have "stripped x" "stripped (join '' '' (y # ys))" by simp_all
  then show ?case by (auto simp: stripped_def)
qed

lemma wts_inner_rest:
  "ws \<noteq> [] \<Longrightarrow> \<forall>w\<in>set ws. stripped (w_text w) \<Longrightarrow>
   wts_inner (Some b) (join '' '' (map w_text ws)) fsent ws out
     = ([], out @ [(Some b, w_end (last ws), fsent)])"
proof (induction ws)
  case Nil
  then show ?case by simp
next
  case (Cons w ws)
  obtain a e t where w: "w = (a, e, t)" by (cases w) auto
  show ?case
  proof (cases ws)
    case Nil
    with w show ?thesis by (simp add: w_text_def w_end_def)
  next
    case (Cons w' ws')
    let ?rest = "join '' '' (map w_text ws)"
    from Cons Cons.prems have st: "stripped ?rest"
      by (intro join_stripped) simp_all
    have j: "join '' '' (map w_text (w # ws)) = t @ '' '' @ ?rest"
      using Cons w by (simp add: w_text_def)
    have ne: "t @ '' '' @ ?rest \<noteq> t" by simp
    have dr: "strip (drop (length t) (t @ '' '' @ ?rest)) = ?rest"
      using strip_space_stripped[OF st] by simp
    from Cons Cons.prems Cons.IH
    have ih: "wts_inner (Some b) ?rest fsent ws out
                = ([], out @ [(Some b, w_end (last ws), fsent)])"
      by simp
    show ?thesis
      unfolding j using ne dr ih Cons by (simp add: w)
  qed
qed

lemma words_to_sentences_single_sentence:
  assumes "2 \<le> length ws" and "\<forall>w\<in>set ws. stripped (w_text w)"
  shows "words_to_sentences (\<lambda>t. Inr [t]) ws
           = Inr [(Some (w_start (hd ws)), w_end (last ws), join '' '' (map w_text ws))]"
proof -
  from assms(1) obtain w ws' where ws: "ws = w # ws'" "ws' \<noteq> []"
    by (cases ws) (auto simp: Suc_le_eq)
  obtain a e t where w: "w = (a, e, t)" by (cases w) auto
  define sent where "sent = join '' '' (map w_text ws)"
  define rest where "rest = join '' '' (map w_text ws')"
  from assms(2) ws have st: "stripped sent"
    unfolding sent_def by (intro join_stripped) simp_all
  from assms(2) ws have st': "stripped rest"
    unfolding rest_def by (intro join_stripped) simp_all
  from ws obtain w2 ws2 where ws': "ws' = w2 # ws2" by (cases ws') auto
  have j: "sent = t @ '' '' @ rest"
    unfolding sent_def rest_def using ws ws' w by (simp add: w_text_def)
  have dr: "strip (drop (length t) sent) = rest"
    unfolding j using strip_space_stripped[OF st'] by simp
  have pre: "prefix t sent" unfolding j by simp
  from assms(2) ws have "\<forall>w\<in>set ws'. stripped (w_text w)" by simp
  from wts_inner_rest[OF ws(2) this, of a sent "[]"]
  have inner: "wts_inner (Some a) rest sent ws' [] = ([], [(Some a, w_end (last ws'), sent)])"
    unfolding rest_def by simp
  have "wts_inner None sent sent ((a, e, t) # ws') []
          = wts_inner (Some a) (strip (drop (length t) sent)) sent ws' []"
    using pre by simp
  with inner dr have "wts_inner None sent sent ws [] = ([], [(Some a, w_end (last ws'), sent)])"
    by (simp add: ws(1) w)
  then have "wts_outer [sent] ws [] = [(Some a, w_end (last ws'), sent)]"
    using strip_stripped[OF st] by simp
  then have "words_to_sentences (\<lambda>t. Inr [t]) ws = Inr [(Some a, w_end (last ws'), sent)]"
    by (simp add: words_to_sentences_def sent_def)
  then show ?thesis
    using ws w by (simp add: w_start_def sent_def)
qed

text \<open>
  Words that carry their leading space, as the transcriber of this program emits them, are
  not matched either: nothing is emitted for \<open>hello\<close> followed by \<open> world\<close>.
\<close>

lemma words_to_sentences_drops_spaced_words:
  "words_to_sentences ex_single_sentence [(0, 4 / 10, ''hello''), (5 / 10, 9 / 10, '' world'')]
     = Inr []"
  by (simp add: words_to_sentences_def ex_single_sentence_def w_text_def strip_def
        py_isspace_def)

text \<open>
  Claim C6 fails on the code. For one committed word and the tokenizer that returns the
  joined text as one sentence, the first branch of the inner loop sets \<^verbatim>\<open>beg\<close>, the
  \<^verbatim>\<open>elif\<close> that would emit the sentence is skipped, and no sentence is emitted.
\<close>

theorem words_to_sentences_drops_single_word:
  "join '' '' (map w_text [(0, 4 / 10, ''hello'')]) = ''hello''
   \<and> words_to_sentences ex_single_sentence [(0, 4 / 10, ''hello'')] = Inr []"
  by (simp add: words_to_sentences_def ex_single_sentence_def w_text_def strip_def
        py_isspace_def)

section \<open>finish and process_iter\<close>

text \<open>
  Claim C10. \<^verbatim>\<open>finish\<close> leaves the processor as it is, a second call returns the same
  triple, and on the initial processor the triple is \<^verbatim>\<open>(None, None, "")\<close>.
\<close>

theorem finish_frame:
  "fst (finish s) = s \<and> snd (finish (fst (finish s))) = snd (finish s)
   \<and> finish init = (init, None, None, '''')"
  by (simp add: finish_def init_def hyp_init_def complete_def to_flush_def)

text \<open>
  Claim C9. When the transcriber raises, \<^verbatim>\<open>process_iter\<close> leaves with that exception
  and the processor is what it was before the call.
\<close>

theorem process_iter_transcriber_error:
  assumes "transcribe (audio_buffer s) (fst (prompt s)) = Inl err"
  shows "process_iter transcribe tokenizer_split s = (s, Inl err)"
proof -
  obtain prompt_text non_prompt where p: "prompt s = (prompt_text, non_prompt)"
    by (cases "prompt s") auto
  with assms have "transcribe (audio_buffer s) prompt_text = Inl err" by simp
  with p show ?thesis by (simp add: process_iter_def)
qed

theorem process_iter_transcriber_error_witness:
  "ex_failing_transcriber (audio_buffer init) (fst (prompt init)) = Inl TranscriberError
   \<and> process_iter ex_failing_transcriber ex_single_sentence init = (init, Inl TranscriberError)"
proof -
  have h: "ex_failing_transcriber (audio_buffer init) (fst (prompt init)) = Inl TranscriberError"
    by (simp add: ex_failing_transcriber_def)
  from process_iter_transcriber_error
         [of ex_failing_transcriber init TranscriberError ex_single_sentence, OF h] h
  show ?thesis by simp
qed

section \<open>Scrolling\<close>













lemma rev_butlast_second_last:
  assumes "2 \<le> length ends"
  shows "rev (butlast ends) = ends ! (length ends - 2) # rev (butlast (butlast ends))"
proof -
  from assms have ne: "butlast ends \<noteq> []" by (cases ends) (auto split: if_splits)
  then have "butlast ends = butlast (butlast ends) @ [last (butlast ends)]" by simp
  moreover have "last (butlast ends) = ends ! (length ends - 2)"
    using ne assms by (simp add: last_conv_nth nth_butlast numeral_2_eq_2)
  ultimately have "butlast ends = butlast (butlast ends) @ [ends ! (length ends - 2)]" by simp
  then have "rev (butlast ends) = rev (butlast (butlast ends) @ [ends ! (length ends - 2)])"
    by simp
  then show ?thesis by simp
qed

lemma seg_loop_find:
  "2 \<le> length ends \<Longrightarrow> e = ends ! (length ends - 2) + offset \<Longrightarrow>
   List.find (\<lambda>e. e \<le> t) (map (\<lambda>x. x + offset) (rev (butlast ends)))
     = (if seg_loop ends e offset t \<le> t then Some (seg_loop ends e offset t) else None)"
proof (induction ends e offset t rule: seg_loop.induct)
  case (1 ends e offset t)
  have cands: "map (\<lambda>x. x + offset) (rev (butlast ends))
                 = e # map (\<lambda>x. x + offset) (rev (butlast (butlast ends)))"
    unfolding rev_butlast_second_last[OF "1.prems"(1)] "1.prems"(2) by simp
  show ?case
  proof (cases "length ends > 2 \<and> e > t")
    case True
    then have len: "2 \<le> length (butlast ends)" by (simp, arith)
    have step: "seg_loop ends e offset t
                  = seg_loop (butlast ends)
                      (butlast ends ! (length (butlast ends) - 2) + offset) offset t"
      using True by (simp add: seg_loop.simps[of ends e offset t])
    from "1.IH"[OF True len refl] True cands step show ?thesis by simp
  next
    case False
    then have res: "seg_loop ends e offset t = e"
      by (auto simp add: seg_loop.simps[of ends e offset t])
    show ?thesis
    proof (cases "e \<le> t")
      case True
      with cands res show ?thesis by simp
    next
      case gt: False
      with False "1.prems"(1) have "length ends = 2" by simp
      then have "length (butlast (butlast ends)) = 0" by simp
      then have "butlast (butlast ends) = []" by (simp only: length_0_conv)
      with cands res gt show ?thesis by simp
    qed
  qed
qed

text \<open>
  Claim C7. With a committed log that ends at \<open>t\<close>: fewer than two segments change
  nothing; otherwise the candidates are the segment ends before the last one, from the
  second-to-last backwards, each shifted by the offset, and \<^verbatim>\<open>chunk_completed_segment\<close>
  scrolls at the first candidate that is at most \<open>t\<close>, or changes nothing when there is none.
\<close>

theorem chunk_completed_segment_walk:
  assumes "commited s \<noteq> []"
  shows "chunk_completed_segment s res =
     (if length res < 2 then s
      else case List.find (\<lambda>e. e \<le> w_end (last (commited s)))
                  (map (\<lambda>x. x + buffer_time_offset s) (rev (butlast (segments_end_ts res)))) of
             None \<Rightarrow> s
           | Some e \<Rightarrow> chunk_at s e)"
proof (cases "length res < 2")
  case True
  with assms show ?thesis
    by (simp add: chunk_completed_segment_def segments_end_ts_def Let_def)
next
  case False
  let ?ends = "segments_end_ts res"
  from False have len: "2 \<le> length ?ends" by (simp add: segments_end_ts_def)
  from seg_loop_find[where ends = ?ends and offset = "buffer_time_offset s"
                       and t = "w_end (last (commited s))", OF len refl]
    assms False len
  show ?thesis
    by (simp add: chunk_completed_segment_def Let_def)
qed

theorem chunk_completed_segment_walk_witness:
  "commited ex_scroll \<noteq> []
   \<and> chunk_completed_segment ex_scroll ex_segments = chunk_at ex_scroll 10
   \<and> chunk_completed_segment ex_scroll (take 1 ex_segments) = ex_scroll
   \<and> chunk_completed_segment ex_scroll (drop 1 ex_segments) = ex_scroll"
proof -
  have h: "commited ex_scroll \<noteq> []" by (simp add: ex_scroll_def)
  have a: "chunk_completed_segment ex_scroll ex_segments = chunk_at ex_scroll 10"
    using chunk_completed_segment_walk[OF h, of ex_segments]
    by (simp add: ex_scroll_def ex_segments_def segments_end_ts_def init_def w_end_def)
  have b: "chunk_completed_segment ex_scroll (take 1 ex_segments) = ex_scroll"
    using chunk_completed_segment_walk[OF h, of "take 1 ex_segments"]
    by (simp add: ex_segments_def)
  have c: "chunk_completed_segment ex_scroll (drop 1 ex_segments) = ex_scroll"
    using chunk_completed_segment_walk[OF h, of "drop 1 ex_segments"]
    by (simp add: ex_scroll_def ex_segments_def segments_end_ts_def init_def w_end_def)
  from h a b c show ?thesis by simp
qed

end
